theory Spec2Isabelle
  imports Main "HOL-Library.Multiset"
begin

section \<open>Tables of the REC river network\<close>

text \<open>
  A row of the REC streams table without its geometry column: the reach id and
  the ids of the node the reach starts from and of the node it flows to.
\<close>

record reach =
  NZREACH :: int
  NZFNODE :: int
  NZTNODE :: int

text \<open>
  A GeoDataFrame is a list of rows in table order, each row the pair of its
  attribute columns and its geometry column; dropping the geometry column is
  \<open>map fst\<close>. The streams table has \<^typ>\<open>reach\<close> attributes and a line geometry
  \<open>'l\<close>; the catchment table has the column NZREACH and a polygon; the sites table
  has arbitrary attributes \<open>'a\<close> and a point \<open>'p\<close>.

  Polygons come from the geometry engine (shapely), which is not part of the
  repository. A polygon is modelled as the finite set of unit cells \<open>'c\<close> it
  covers: the union of polygons is the union of the sets and the area is the
  number of cells. \<open>dissolve\<close> of a table with no rows is the table with no rows.
\<close>

type_synonym 'l streams = "(reach \<times> 'l) list"
type_synonym 'c catchments = "(int \<times> 'c set) list"
type_synonym ('a, 'p) sites = "('a \<times> 'p) list"

text \<open>The exceptions the functions below raise.\<close>

datatype error = ValueError | DataLoadError

section \<open>pandas and geopandas operations used by the source\<close>

text \<open>\<open>Series.unique()\<close>: the distinct values in order of first appearance.\<close>

definition unique :: "'a list \<Rightarrow> 'a list" where
  "unique xs = rev (remdups (rev xs))"

text \<open>\<open>astype('int32')\<close>: the cast wraps around modulo \<open>2 ^ 32\<close>.\<close>

definition int32 :: "int \<Rightarrow> int" where
  "int32 x = (x + 2 ^ 31) mod 2 ^ 32 - 2 ^ 31"

text \<open>\<open>unary_union\<close> of a list of polygons and the \<open>area\<close> of a polygon.\<close>

definition unary_union :: "'c set list \<Rightarrow> 'c set" where
  "unary_union gs = \<Union> (set gs)"

definition area :: "'c set \<Rightarrow> nat" where
  "area g = card g"

text \<open>
  \<open>GeoDataFrame.dissolve(by)\<close> on a table of (key, geometry) rows: one row per
  key, in ascending key order, with the union of the geometries of the group.
\<close>

definition dissolve :: "(int \<times> 'c set) list \<Rightarrow> (int \<times> 'c set) list" where
  "dissolve rows =
     map (\<lambda>k. (k, unary_union (map snd (filter (\<lambda>row. fst row = k) rows))))
       (sort (remdups (map fst rows)))"

text \<open>
  \<open>left.merge(right, on=key)\<close>, the inner join: for every left row in order, the
  right rows with the same key in their order. The keys are read by \<open>kl\<close> and
  \<open>kr\<close>, the joined row is built by \<open>mk\<close>.
\<close>

definition merge_on :: "('x \<Rightarrow> int) \<Rightarrow> ('y \<Rightarrow> int) \<Rightarrow> ('x \<Rightarrow> 'y \<Rightarrow> 'z) \<Rightarrow> 'x list \<Rightarrow> 'y list \<Rightarrow> 'z list" where
  "merge_on kl kr mk left right =
     concat (map (\<lambda>x. map (mk x) (filter (\<lambda>y. kr y = kl x) right)) left)"

section \<open>find_upstream (rec.py, lines 14 to 54)\<close>

text \<open>\<open>rec[rec.NZTNODE.isin(cur.NZFNODE)]\<close>: the rows that flow into a node some row of \<open>cur\<close> starts from.\<close>

definition isin_NZFNODE :: "reach list \<Rightarrow> reach list \<Rightarrow> reach list" where
  "isin_NZFNODE rec cur = filter (\<lambda>r. NZTNODE r \<in> set (map NZFNODE cur)) rec"

text \<open>
  The \<open>while not up1.empty\<close> loop of lines 46 to 48. It has no bound, so it is a
  partial function: \<open>None\<close> means that the loop never ends.
\<close>

partial_function (option) upstream_loop :: "reach list \<Rightarrow> reach list \<Rightarrow> reach list \<Rightarrow> reach list option" where
  "upstream_loop rec reach1 up1 =
     (if up1 = [] then Some reach1
      else upstream_loop rec (reach1 @ up1) (isin_NZFNODE rec up1))"

declare upstream_loop.simps [code]

text \<open>Lines 44 to 48: the body of the \<open>for\<close> loop for one start id, before the start column is set.\<close>

definition upstream_of :: "reach list \<Rightarrow> int \<Rightarrow> reach list option" where
  "upstream_of rec i =
     (let reach1 = filter (\<lambda>r. NZREACH r = i) rec;
          up1 = isin_NZFNODE rec reach1
      in upstream_loop rec reach1 up1)"

text \<open>
  The \<open>for i in nzreach\<close> loop: every table gets its start column (the later
  index) and is appended to \<open>reaches_lst\<close>. A start whose loop does not end keeps
  the whole function from returning.
\<close>

fun reaches_lst :: "reach list \<Rightarrow> int list \<Rightarrow> (int \<times> reach) list list option" where
  "reaches_lst rec [] = Some []"
| "reaches_lst rec (i # nzreach) =
     (case upstream_of rec i of
        None \<Rightarrow> None
      | Some reach1 \<Rightarrow>
          (case reaches_lst rec nzreach of
             None \<Rightarrow> None
           | Some rest \<Rightarrow> Some (map (Pair i) reach1 # rest)))"

text \<open>
  \<open>find_upstream\<close>. The argument \<open>nzreach\<close> is a list, so the \<open>TypeError\<close> of line 30
  cannot arise. \<open>pd.concat\<close> of an empty list of tables raises \<open>ValueError\<close>. A row
  of the result is the pair of its index \<open>start\<close> and the reach.
\<close>

definition find_upstream :: "int list \<Rightarrow> 'l streams \<Rightarrow> (error + (int \<times> reach) list) option" where
  "find_upstream nzreach rec_streams_shp =
     (let rec = map fst rec_streams_shp
      in case reaches_lst rec nzreach of
           None \<Rightarrow> None
         | Some lst \<Rightarrow> Some (if lst = [] then Inl ValueError else Inr (concat lst)))"

section \<open>extract_catch and agg_catch (rec.py, lines 61 to 117)\<close>

text \<open>
  A row of the result of \<open>extract_catch\<close> has the columns NZREACH, geometry, start,
  NZFNODE and NZTNODE: the attributes are a row of \<open>find_upstream\<close>, the geometry
  is the dissolved polygon of the reach.
\<close>

definition extract_catch :: "(int \<times> reach) list \<Rightarrow> 'c catchments \<Rightarrow> ((int \<times> reach) \<times> 'c set) list" where
  "extract_catch reaches rec_catch_shp =
     (let sites = map int32 (unique (map (\<lambda>row. NZREACH (snd row)) reaches));
          catch0 = rec_catch_shp;
          catch1 = filter (\<lambda>row. fst row \<in> set sites) catch0;
          catch2 = dissolve catch1
      in merge_on fst (\<lambda>row. NZREACH (snd row)) (\<lambda>c row. (row, snd c)) catch2 reaches)"

text \<open>A row of the result of \<open>agg_catch\<close>: start, geometry, area.\<close>

definition agg_catch :: "((int \<times> reach) \<times> 'c set) list \<Rightarrow> (int \<times> 'c set \<times> nat) list" where
  "agg_catch rec_catch =
     (let rec_shed = dissolve (map (\<lambda>row. (fst (fst row), snd row)) rec_catch)
      in map (\<lambda>row. (int32 (fst row), snd row, area (snd row))) rec_shed)"

section \<open>catch_delineate (rec.py, lines 120 to 178)\<close>

text \<open>
  The topology overrides of line 147, \<open>{NZREACH: {column: node}}\<close>, as an
  association list in the order of the dictionary. The columns an override may
  set are the two node columns.
\<close>

datatype column = NZFNODE_col | NZTNODE_col

type_synonym mods = "(int \<times> (column \<times> int) list) list"

definition mods :: mods where
  "mods = [(13053151, [(NZTNODE_col, 13055874)]),
           (13048353, [(NZTNODE_col, 13048851)]),
           (13048498, [(NZTNODE_col, 13048851)])]"

fun set_column :: "column \<times> int \<Rightarrow> reach \<Rightarrow> reach" where
  "set_column (NZFNODE_col, v) r = r\<lparr>NZFNODE := v\<rparr>"
| "set_column (NZTNODE_col, v) r = r\<lparr>NZTNODE := v\<rparr>"

text \<open>Line 157, \<open>rec_streams.loc[rec_streams['NZREACH'] == i, keys] = values\<close>, for one override.\<close>

definition loc_assign :: "int \<times> (column \<times> int) list \<Rightarrow> 'l streams \<Rightarrow> 'l streams" where
  "loc_assign m rec_streams =
     map (\<lambda>row. if NZREACH (fst row) = fst m then (fold set_column (snd m) (fst row), snd row) else row)
       rec_streams"

text \<open>Lines 156 and 157, the loop over the overrides.\<close>

definition make_mods :: "mods \<Rightarrow> 'l streams \<Rightarrow> 'l streams" where
  "make_mods ms rec_streams = fold loc_assign ms rec_streams"

text \<open>
  Modelled from the spec: \<open>gistools.vector.kd_nearest\<close> is imported by rec.py and is
  not among the sources. Section 4.2 (b) of the specification: each point is
  assigned to the nearest centroid whose distance does not exceed
  \<open>max_distance\<close>; a point with no such centroid is dropped; with an unbounded
  \<open>max_distance\<close> (\<open>None\<close> here, \<open>np.inf\<close> in the source) every point is assigned if
  there is a reach at all. The distance \<open>dist\<close> is the geometry engine's and a
  parameter. Of two centroids at the same distance the earlier row is taken. A
  matched row keeps the attributes and the point of the site and gains the
  column NZREACH.
\<close>

fun nearest :: "('p \<Rightarrow> 'p \<Rightarrow> 'd::linorder) \<Rightarrow> 'p \<Rightarrow> (reach \<times> 'p) list \<Rightarrow> (reach \<times> 'p) option" where
  "nearest dist p [] = None"
| "nearest dist p (x # xs) =
     (case nearest dist p xs of
        None \<Rightarrow> Some x
      | Some y \<Rightarrow> if dist p (snd x) \<le> dist p (snd y) then Some x else Some y)"

definition within :: "'d::linorder option \<Rightarrow> 'd \<Rightarrow> bool" where
  "within max_distance d = (case max_distance of None \<Rightarrow> True | Some m \<Rightarrow> d \<le> m)"

definition kd_nearest :: "('p \<Rightarrow> 'p \<Rightarrow> 'd::linorder) \<Rightarrow> ('a, 'p) sites \<Rightarrow> (reach \<times> 'p) list \<Rightarrow> 'd option \<Rightarrow> (('a \<times> int) \<times> 'p) list" where
  "kd_nearest dist df1 df2 max_distance =
     concat (map (\<lambda>row.
         case nearest dist (snd row) df2 of
           None \<Rightarrow> []
         | Some c \<Rightarrow>
             if within max_distance (dist (snd row) (snd c))
             then [((fst row, NZREACH (fst c)), snd row)] else [])
       df1)"

text \<open>
  Lines 164 to 175, from the matched sites \<open>pts_seg\<close> to the result. A row of the
  result has the columns NZREACH, geometry and area and the attributes of the
  site.
\<close>

definition catch_results :: "(('a \<times> int) \<times> 'p) list \<Rightarrow> 'l streams \<Rightarrow> 'c catchments \<Rightarrow> (error + (int \<times> 'c set \<times> nat \<times> 'a) list) option" where
  "catch_results pts_seg rec_streams rec_catch =
     (let nzreach = unique (map (\<lambda>row. snd (fst row)) pts_seg)
      in case find_upstream nzreach rec_streams of
           None \<Rightarrow> None
         | Some (Inl e) \<Rightarrow> Some (Inl e)
         | Some (Inr reaches) \<Rightarrow>
             (let rec_catch1 = extract_catch reaches rec_catch;
                  rec_shed = agg_catch rec_catch1;
                  rec_shed1 = merge_on fst snd (\<lambda>s row. (fst s, fst (snd s), snd (snd s), fst row))
                                rec_shed (map fst pts_seg)
              in Some (Inr rec_shed1)))"

text \<open>
  \<open>catch_delineate\<close>. The tables are given by value, \<open>load_geo_data\<close> of a loaded
  table being that table; the overrides are applied to the local table
  \<open>rec_streams\<close>. The sites are points, which \<open>simplify(1)\<close> of line 153 leaves as
  they are. The centroid of a line is the geometry engine's and a parameter.
\<close>

definition catch_delineate :: "('l \<Rightarrow> 'p) \<Rightarrow> ('p \<Rightarrow> 'p \<Rightarrow> 'd::linorder) \<Rightarrow> ('a, 'p) sites \<Rightarrow> 'l streams \<Rightarrow> 'c catchments \<Rightarrow> 'd option \<Rightarrow> (error + (int \<times> 'c set \<times> nat \<times> 'a) list) option" where
  "catch_delineate centroid dist sites_shp rec_streams_shp rec_catch_shp max_distance =
     (let rec_catch = rec_catch_shp;
          rec_streams = make_mods mods rec_streams_shp;
          pts = sites_shp;
          rec_pts1 = map (\<lambda>row. (fst row, centroid (snd row))) rec_streams;
          pts_seg = kd_nearest dist pts rec_pts1 max_distance
      in catch_results pts_seg rec_streams rec_catch)"

subsection \<open>The loaded table as an object in a store\<close>

text \<open>
  Whether the caller's streams table is changed by line 157 depends on what
  \<open>load_geo_data\<close> returns. Tables are objects in a store, a list of tables
  addressed by position.

  Modelled from the spec: \<open>gistools.util.load_geo_data\<close> is imported by rec.py and
  is not among the sources. Section 6 of the specification: it accepts an
  already loaded collection; section 3: the overrides mutate a copy, never the
  source. So it allocates a copy of the table it is given and returns the
  address of the copy; of an address that holds no table it fails with
  \<open>DataLoadError\<close>.
\<close>

type_synonym 'l store = "'l streams list"

definition load_geo_data :: "'l store \<Rightarrow> nat \<Rightarrow> error + ('l store \<times> nat)" where
  "load_geo_data h a =
     (if a < length h then Inr (h @ [h ! a], length h) else Inl DataLoadError)"

text \<open>Lines 156 and 157 on the store: the table at address \<open>a\<close> is updated in place.\<close>

definition make_mods_in_place :: "mods \<Rightarrow> nat \<Rightarrow> 'l store \<Rightarrow> 'l store" where
  "make_mods_in_place ms a h = h[a := make_mods ms (h ! a)]"

text \<open>Line 151 followed by lines 156 and 157: the store afterwards and the address of \<open>rec_streams\<close>.\<close>

definition load_and_mod :: "mods \<Rightarrow> 'l store \<Rightarrow> nat \<Rightarrow> error + ('l store \<times> nat)" where
  "load_and_mod ms h rec_streams_shp =
     (case load_geo_data h rec_streams_shp of
        Inl e \<Rightarrow> Inl e
      | Inr (h1, rec_streams) \<Rightarrow> Inr (make_mods_in_place ms rec_streams h1, rec_streams))"

section \<open>The concrete scenario of the specification\<close>

text \<open>
  Reach 1 from node 10 to node 20, reach 2 from 20 to 30, reach 3 from 25 to 30,
  with any line geometry \<open>l\<close>, and one polygon for each reach.
\<close>

definition scenario_streams :: "'l \<Rightarrow> 'l streams" where
  "scenario_streams l =
     [(\<lparr>NZREACH = 1, NZFNODE = 10, NZTNODE = 20\<rparr>, l),
      (\<lparr>NZREACH = 2, NZFNODE = 20, NZTNODE = 30\<rparr>, l),
      (\<lparr>NZREACH = 3, NZFNODE = 25, NZTNODE = 30\<rparr>, l)]"

definition scenario_catch :: "'c set \<Rightarrow> 'c set \<Rightarrow> 'c set \<Rightarrow> 'c catchments" where
  "scenario_catch g1 g2 g3 = [(1, g1), (2, g2), (3, g3)]"

section \<open>The reaches upstream of a reach\<close>

text \<open>
  \<open>(r, r')\<close> is in \<open>upstream rec\<close> when \<open>r'\<close> is a row of the table that flows into the
  node \<open>r\<close> starts from. The upstream set of a start id is everything reachable
  along this relation from the rows with that id, these rows included.
\<close>

definition upstream :: "reach list \<Rightarrow> (reach \<times> reach) set" where
  "upstream rec = {(r, r'). r' \<in> set rec \<and> NZTNODE r' = NZFNODE r}"

definition upstream_set :: "reach list \<Rightarrow> int \<Rightarrow> reach set" where
  "upstream_set rec i = (upstream rec)\<^sup>* `` {r \<in> set rec. NZREACH r = i}"

section \<open>Every site on its own\<close>


text \<open>
  The polygons that make up the catchment of a start id: for every reach of its
  upstream set that has a polygon in the catchment table (and whose id the cast
  to 32 bits leaves unchanged), the union of the polygons of that reach.
\<close>

definition sub_catchments :: "'c catchments \<Rightarrow> reach list \<Rightarrow> int \<Rightarrow> 'c set set" where
  "sub_catchments rec_catch rec s =
     {\<Union> {g. (NZREACH r, g) \<in> set rec_catch} | r.
        r \<in> upstream_set rec s \<and> NZREACH r \<in> fst ` set rec_catch \<and> int32 (NZREACH r) = NZREACH r}"


section \<open>Running the functions\<close>

lemma upstream_loop_Nil: "upstream_loop rec reach1 [] = Some reach1"
  by (simp add: upstream_loop.simps)

lemma upstream_loop_Cons:
  "upstream_loop rec reach1 (u # us) = upstream_loop rec (reach1 @ u # us) (isin_NZFNODE rec (u # us))"
  by (subst upstream_loop.simps) simp

lemma isin_NZFNODE_Nil: "isin_NZFNODE rec [] = []"
  by (simp add: isin_NZFNODE_def)

lemmas run_simps = upstream_loop_Nil upstream_loop_Cons upstream_of_def isin_NZFNODE_def
  find_upstream_def

lemmas table_simps = extract_catch_def agg_catch_def dissolve_def merge_on_def unique_def
  int32_def unary_union_def area_def

lemma scenario_upstream_2:
  "find_upstream [2] (scenario_streams l) =
     Some (Inr [(2, \<lparr>NZREACH = 2, NZFNODE = 20, NZTNODE = 30\<rparr>),
                (2, \<lparr>NZREACH = 1, NZFNODE = 10, NZTNODE = 20\<rparr>)])"
  by (simp add: run_simps scenario_streams_def del: set_filter)

lemma scenario_upstream_3:
  "find_upstream [3] (scenario_streams l) =
     Some (Inr [(3, \<lparr>NZREACH = 3, NZFNODE = 25, NZTNODE = 30\<rparr>)])"
  by (simp add: run_simps scenario_streams_def del: set_filter)

lemma scenario_results_2:
  "catch_results [((a, 2), p)] (scenario_streams l) (scenario_catch g1 g2 g3) =
     Some (Inr [(2, g1 \<union> g2, card (g1 \<union> g2), a)])"
  by (simp add: catch_results_def scenario_upstream_2 table_simps scenario_catch_def Un_commute
      del: set_filter)

lemma scenario_results_3:
  "catch_results [((a, 3), p)] (scenario_streams l) (scenario_catch g1 g2 g3) =
     Some (Inr [(3, g3, card g3, a)])"
  by (simp add: catch_results_def scenario_upstream_3 table_simps scenario_catch_def
      del: set_filter)

text \<open>
  C4. In the scenario with polygons of areas 5, 3 and 4, those of reaches 1 and 2
  not overlapping, a site matched to reach 2 has the upstream reaches 2 and 1 and
  the aggregated area 8, and a site matched to reach 3 has the upstream reach 3
  alone and the area 4.
\<close>

theorem scenario_upstream_sets_and_areas:
  assumes "card g1 = 5" and "card g2 = 3" and "card g3 = 4" and "g1 \<inter> g2 = {}"
  shows "find_upstream [2] (scenario_streams l) =
           Some (Inr [(2, \<lparr>NZREACH = 2, NZFNODE = 20, NZTNODE = 30\<rparr>),
                      (2, \<lparr>NZREACH = 1, NZFNODE = 10, NZTNODE = 20\<rparr>)])
       \<and> catch_results [((a, 2), p)] (scenario_streams l) (scenario_catch g1 g2 g3) =
           Some (Inr [(2, g1 \<union> g2, 8, a)])
       \<and> find_upstream [3] (scenario_streams l) =
           Some (Inr [(3, \<lparr>NZREACH = 3, NZFNODE = 25, NZTNODE = 30\<rparr>)])
       \<and> catch_results [((b, 3), q)] (scenario_streams l) (scenario_catch g1 g2 g3) =
           Some (Inr [(3, g3, 4, b)])"
proof -
  from assms(1,2) have "finite g1" and "finite g2"
    by (simp_all add: card_ge_0_finite)
  with assms have "card (g1 \<union> g2) = 8"
    by (simp add: card_Un_disjoint)
  with assms(3) show ?thesis
    by (simp add: scenario_upstream_2 scenario_upstream_3 scenario_results_2 scenario_results_3)
qed

theorem scenario_upstream_sets_and_areas_witness:
  "catch_results [(((), 2), ())] (scenario_streams ())
       (scenario_catch {0, 1, 2, 3, 4 :: nat} {5, 6, 7} {8, 9, 10, 11}) =
     Some (Inr [(2, {0, 1, 2, 3, 4} \<union> {5, 6, 7}, 8, ())])
   \<and> catch_results [(((), 3), ())] (scenario_streams ())
       (scenario_catch {0, 1, 2, 3, 4 :: nat} {5, 6, 7} {8, 9, 10, 11}) =
     Some (Inr [(3, {8, 9, 10, 11}, 4, ())])"
proof -
  have "card {0, 1, 2, 3, 4 :: nat} = 5" and "card {5, 6, 7 :: nat} = 3"
    and "card {8, 9, 10, 11 :: nat} = 4" and "{0, 1, 2, 3, 4 :: nat} \<inter> {5, 6, 7} = {}"
    by simp_all
  from scenario_upstream_sets_and_areas[OF this, of "()" "()" "()" "()" "()"]
  show ?thesis by blast
qed

section \<open>A start id that is not in the table\<close>





section \<open>Topology overrides\<close>

lemma NZREACH_set_column: "NZREACH (set_column c r) = NZREACH r"
proof (cases c)
  case (Pair col v)
  then show ?thesis by (cases col) simp_all
qed

lemma NZREACH_fold_set_column: "NZREACH (fold set_column cs r) = NZREACH r"
  by (induction cs arbitrary: r) (simp_all add: NZREACH_set_column)

lemma loc_assign_ids:
  "map (\<lambda>row. NZREACH (fst row)) (loc_assign m rec_streams) = map (\<lambda>row. NZREACH (fst row)) rec_streams"
  by (simp add: loc_assign_def NZREACH_fold_set_column)

lemma loc_assign_geometry: "map snd (loc_assign m rec_streams) = map snd rec_streams"
  by (simp add: loc_assign_def)

lemma make_mods_ids:
  "map (\<lambda>row. NZREACH (fst row)) (make_mods ms rec_streams) = map (\<lambda>row. NZREACH (fst row)) rec_streams"
  unfolding make_mods_def by (induction ms arbitrary: rec_streams) (simp_all add: loc_assign_ids)

lemma make_mods_geometry: "map snd (make_mods ms rec_streams) = map snd rec_streams"
  unfolding make_mods_def by (induction ms arbitrary: rec_streams) (simp_all add: loc_assign_geometry)

lemma loc_assign_absent:
  "fst m \<notin> set (map (\<lambda>row. NZREACH (fst row)) rec_streams) \<Longrightarrow> loc_assign m rec_streams = rec_streams"
  unfolding loc_assign_def by (rule map_idI) force

text \<open>
  C8. An override whose reach id is not in the reach table changes nothing: the
  assignment of line 157 returns the table as it was, and in any override
  mapping the entry can be left out without changing the table that results.
  The functions are total, so no error is raised.
\<close>

theorem override_of_absent_reach_is_noop:
  assumes "i \<notin> NZREACH ` fst ` set rec_streams"
  shows "loc_assign (i, upd) rec_streams = rec_streams
       \<and> make_mods (ms1 @ (i, upd) # ms2) rec_streams = make_mods (ms1 @ ms2) rec_streams"
proof -
  from assms have a: "i \<notin> set (map (\<lambda>row. NZREACH (fst row)) rec_streams)"
    by (simp add: image_image)
  then have "i \<notin> set (map (\<lambda>row. NZREACH (fst row)) (make_mods ms1 rec_streams))"
    by (simp add: make_mods_ids)
  then have "loc_assign (i, upd) (make_mods ms1 rec_streams) = make_mods ms1 rec_streams"
    by (simp add: loc_assign_absent)
  then have "make_mods (ms1 @ (i, upd) # ms2) rec_streams = make_mods (ms1 @ ms2) rec_streams"
    by (simp add: make_mods_def)
  moreover from a have "loc_assign (i, upd) rec_streams = rec_streams"
    by (simp add: loc_assign_absent)
  ultimately show ?thesis by simp
qed

theorem override_of_absent_reach_is_noop_witness:
  "(13053151::int) \<notin> NZREACH ` fst ` set (scenario_streams ())
   \<and> make_mods mods (scenario_streams ()) = make_mods (tl mods) (scenario_streams ())"
proof -
  have h: "(13053151::int) \<notin> NZREACH ` fst ` set (scenario_streams ())"
    by (simp add: scenario_streams_def)
  from override_of_absent_reach_is_noop[OF h, of "[(NZTNODE_col, 13055874)]" "[]" "tl mods"]
  show ?thesis using h by (simp add: mods_def)
qed

text \<open>
  C6. Applying the overrides leaves the caller's reach table as it was: after
  the table is loaded and the overrides are applied, every object the store held
  before, the caller's table among them, is unchanged, and the modified table is
  a new object.
\<close>

theorem overrides_leave_source_unchanged:
  assumes "rec_streams_shp < length h"
  shows "\<exists>h'. load_and_mod ms h rec_streams_shp = Inr (h', length h)
           \<and> take (length h) h' = h
           \<and> h' ! rec_streams_shp = h ! rec_streams_shp
           \<and> h' ! length h = make_mods ms (h ! rec_streams_shp)"
  using assms
  by (simp add: load_and_mod_def load_geo_data_def make_mods_in_place_def nth_append)

theorem overrides_leave_source_unchanged_witness:
  "\<exists>h'. load_and_mod [(1, [(NZTNODE_col, 30)])] [scenario_streams ()] 0 = Inr (h', 1)
     \<and> h' ! 0 = scenario_streams ()
     \<and> h' ! 1 \<noteq> scenario_streams ()"
proof -
  have h: "(0::nat) < length [scenario_streams ()]" by simp
  from overrides_leave_source_unchanged[OF h, of "[(1, [(NZTNODE_col, 30)])]"]
  show ?thesis
    by (auto simp: make_mods_def loc_assign_def scenario_streams_def)
qed

section \<open>No site is matched\<close>

lemma nearest_mem: "nearest dist p xs = Some c \<Longrightarrow> c \<in> set xs"
  by (induction xs arbitrary: c) (auto split: option.splits if_splits)

lemma kd_nearest_Nil_iff:
  "kd_nearest dist df1 df2 max_distance = [] \<longleftrightarrow>
     (\<forall>row \<in> set df1. \<forall>c. nearest dist (snd row) df2 = Some c \<longrightarrow> \<not> within max_distance (dist (snd row) (snd c)))"
  by (auto simp: kd_nearest_def split: option.splits if_splits)

lemma kd_nearest_far:
  assumes "\<forall>site \<in> set df1. \<forall>c \<in> set df2. \<not> within max_distance (dist (snd site) (snd c))"
  shows "kd_nearest dist df1 df2 max_distance = []"
  unfolding kd_nearest_Nil_iff using assms nearest_mem by fastforce

lemma catch_results_Nil: "catch_results [] rec_streams rec_catch = Some (Inl ValueError)"
  by (simp add: catch_results_def unique_def find_upstream_def)

lemma centroids_make_mods:
  "snd ` set (map (\<lambda>row. (fst row, centroid (snd row))) (make_mods ms rec_streams)) = centroid ` snd ` set rec_streams"
proof -
  have "snd ` set (map (\<lambda>row. (fst row, centroid (snd row))) (make_mods ms rec_streams))
        = centroid ` set (map snd (make_mods ms rec_streams))"
    by (simp add: image_image)
  then show ?thesis by (simp add: make_mods_geometry)
qed

text \<open>
  C9. When no site has a reach centroid within \<open>max_distance\<close>, the table of
  matched sites is empty, \<open>find_upstream\<close> is called with no reach id, its
  \<open>pd.concat\<close> of no tables raises \<open>ValueError\<close>, and \<open>catch_delineate\<close> ends with that
  error instead of returning an empty table.
\<close>

theorem no_match_raises_ValueError:
  assumes "\<forall>site \<in> set sites_shp. \<forall>row \<in> set rec_streams_shp.
             \<not> within max_distance (dist (snd site) (centroid (snd row)))"
  shows "kd_nearest dist sites_shp
           (map (\<lambda>row. (fst row, centroid (snd row))) (make_mods mods rec_streams_shp)) max_distance = []
       \<and> find_upstream [] (make_mods mods rec_streams_shp) = Some (Inl ValueError)
       \<and> catch_delineate centroid dist sites_shp rec_streams_shp rec_catch_shp max_distance
           = Some (Inl ValueError)"
proof -
  let ?pts1 = "map (\<lambda>row. (fst row, centroid (snd row))) (make_mods mods rec_streams_shp)"
  have "\<forall>site \<in> set sites_shp. \<forall>c \<in> set ?pts1. \<not> within max_distance (dist (snd site) (snd c))"
  proof (intro ballI)
    fix site c assume s: "site \<in> set sites_shp" and c: "c \<in> set ?pts1"
    from c have "snd c \<in> snd ` set ?pts1" by (rule imageI)
    then have "snd c \<in> centroid ` snd ` set rec_streams_shp"
      by (simp only: centroids_make_mods)
    then obtain row where "row \<in> set rec_streams_shp" and "snd c = centroid (snd row)"
      by auto
    with assms s show "\<not> within max_distance (dist (snd site) (snd c))" by simp
  qed
  then have k: "kd_nearest dist sites_shp ?pts1 max_distance = []"
    by (rule kd_nearest_far)
  have "find_upstream [] (make_mods mods rec_streams_shp) = Some (Inl ValueError)"
    by (simp add: find_upstream_def)
  with k show ?thesis
    by (simp add: catch_delineate_def catch_results_Nil)
qed

theorem no_match_raises_ValueError_witness:
  "catch_delineate id (\<lambda>a b. \<bar>a - b\<bar>) [((), 100)]
     [(\<lparr>NZREACH = 1, NZFNODE = 10, NZTNODE = 20\<rparr>, 0 :: int)] ([] :: nat catchments) (Some 5)
   = Some (Inl ValueError)"
proof -
  have "\<forall>site \<in> set [((), 100 :: int)]. \<forall>row \<in> set [(\<lparr>NZREACH = 1, NZFNODE = 10, NZTNODE = 20\<rparr>, 0 :: int)].
          \<not> within (Some 5) (\<bar>snd site - id (snd row)\<bar>)"
    by (simp add: within_def)
  from no_match_raises_ValueError[where dist = "\<lambda>a b. \<bar>a - b\<bar>" and centroid = id
      and sites_shp = "[((), 100 :: int)]" and max_distance = "Some 5"
      and rec_streams_shp = "[(\<lparr>NZREACH = 1, NZFNODE = 10, NZTNODE = 20\<rparr>, 0 :: int)]", OF this]
  show ?thesis by blast
qed

section \<open>The tables of extract_catch\<close>

lemma set_unique: "set (unique xs) = set xs"
  by (simp add: unique_def)

lemma distinct_unique: "distinct (unique xs)"
  by (simp add: unique_def)

lemma unique_Nil_iff: "unique xs = [] \<longleftrightarrow> xs = []"
  by (metis set_unique set_empty)

lemma unary_union_filter:
  "unary_union (map snd (filter (\<lambda>row. fst row = k) rows)) = \<Union> {g. (k, g) \<in> set rows}"
  by (force simp: unary_union_def)

lemma set_dissolve:
  "set (dissolve rows) = (\<lambda>k. (k, \<Union> {g. (k, g) \<in> set rows})) ` fst ` set rows"
  by (simp add: dissolve_def image_image unary_union_filter)

lemma set_merge_on:
  "set (merge_on kl kr mk left right) = {mk x y | x y. x \<in> set left \<and> y \<in> set right \<and> kr y = kl x}"
  by (auto simp: merge_on_def)

lemma int32_idem: "int32 (int32 x) = int32 x"
  by (simp add: int32_def)

lemma int32_image_iff: "k \<in> A \<Longrightarrow> k \<in> int32 ` A \<longleftrightarrow> int32 k = k"
  by (metis image_iff int32_idem)


lemma extract_catch_iff:
  "(row, g) \<in> set (extract_catch reaches rec_catch_shp) \<longleftrightarrow>
     row \<in> set reaches \<and> NZREACH (snd row) \<in> fst ` set rec_catch_shp
     \<and> int32 (NZREACH (snd row)) = NZREACH (snd row)
     \<and> g = \<Union> {g. (NZREACH (snd row), g) \<in> set rec_catch_shp}"
proof -
  define sites where "sites = map int32 (unique (map (\<lambda>row. NZREACH (snd row)) reaches))"
  define catch1 where "catch1 = filter (\<lambda>row. fst row \<in> set sites) rec_catch_shp"
  have e: "extract_catch reaches rec_catch_shp =
      merge_on fst (\<lambda>row. NZREACH (snd row)) (\<lambda>c row. (row, snd c)) (dissolve catch1) reaches"
    by (simp add: extract_catch_def sites_def catch1_def)
  have 1: "(row, g) \<in> set (extract_catch reaches rec_catch_shp) \<longleftrightarrow>
      row \<in> set reaches \<and> (NZREACH (snd row), g) \<in> set (dissolve catch1)"
  proof -
    have "(row, g) \<in> set (extract_catch reaches rec_catch_shp) \<longleftrightarrow>
        (\<exists>c. c \<in> set (dissolve catch1) \<and> row \<in> set reaches \<and> NZREACH (snd row) = fst c \<and> g = snd c)"
      unfolding e set_merge_on by blast
    also have "\<dots> \<longleftrightarrow> row \<in> set reaches \<and> (NZREACH (snd row), g) \<in> set (dissolve catch1)"
      by (metis prod.collapse fst_conv snd_conv)
    finally show ?thesis .
  qed
  have 2: "(k, g) \<in> set (dissolve catch1) \<longleftrightarrow>
      k \<in> fst ` set catch1 \<and> g = \<Union> {g. (k, g) \<in> set catch1}" for k
    unfolding set_dissolve by blast
  have 3: "k \<in> fst ` set catch1 \<longleftrightarrow> k \<in> fst ` set rec_catch_shp \<and> k \<in> set sites" for k
    unfolding catch1_def by force
  have 4: "{g. (k, g) \<in> set catch1} = {g. (k, g) \<in> set rec_catch_shp}" if "k \<in> set sites" for k
    unfolding catch1_def using that by simp
  have s: "set sites = int32 ` (\<lambda>row. NZREACH (snd row)) ` set reaches"
    by (simp add: sites_def set_unique)
  have 5: "NZREACH (snd row) \<in> set sites \<longleftrightarrow> int32 (NZREACH (snd row)) = NZREACH (snd row)"
    if "row \<in> set reaches"
    unfolding s using that by (intro int32_image_iff) (rule imageI)
  show ?thesis
  proof (cases "row \<in> set reaches")
    case False
    then show ?thesis by (simp add: 1)
  next
    case True
    show ?thesis
    proof (cases "NZREACH (snd row) \<in> set sites")
      case False
      with True show ?thesis by (simp add: 1 2 3 5)
    next
      case s: True
      with True show ?thesis by (simp add: 1 2 3 4 5[symmetric])
    qed
  qed
qed

lemma reaches_lst_Nil_iff: "reaches_lst rec nz = Some [] \<longleftrightarrow> nz = []"
  by (cases nz) (auto split: option.splits)

lemma find_upstream_error_iff:
  "find_upstream nzreach rec_streams_shp = Some (Inl e) \<longleftrightarrow> nzreach = [] \<and> e = ValueError"
  by (auto simp: find_upstream_def reaches_lst_Nil_iff split: option.splits)





section \<open>Termination and result of the upstream loop\<close>

lemma set_isin_NZFNODE: "set (isin_NZFNODE rec cur) = upstream rec `` set cur"
  by (auto simp: isin_NZFNODE_def upstream_def)

lemma set_isin_NZFNODE_funpow:
  "set ((isin_NZFNODE rec ^^ n) cur) = (upstream rec ^^ n) `` set cur"
proof (induction n)
  case 0
  then show ?case by simp
next
  case (Suc n)
  have "set ((isin_NZFNODE rec ^^ Suc n) cur) = upstream rec `` ((upstream rec ^^ n) `` set cur)"
    by (simp add: set_isin_NZFNODE Suc.IH)
  also have "\<dots> = (upstream rec ^^ Suc n) `` set cur"
    by auto
  finally show ?case .
qed

lemma upstream_loop_levels:
  "upstream_loop rec reach1 up1 = Some res \<Longrightarrow>
     \<exists>n. (isin_NZFNODE rec ^^ n) up1 = []
       \<and> res = reach1 @ concat (map (\<lambda>k. (isin_NZFNODE rec ^^ k) up1) [0..<n])"
proof (induction rule: upstream_loop.raw_induct[rotated 1, consumes 1])
  case (1 f rec reach1 up1 res)
  show ?case
  proof (cases "up1 = []")
    case True
    with 1(2) have "res = reach1" by simp
    with True show ?thesis by (intro exI[of _ 0]) simp
  next
    case False
    with 1(2) have "f rec (reach1 @ up1) (isin_NZFNODE rec up1) = Some res" by simp
    from 1(1)[OF this] obtain n where
      n: "(isin_NZFNODE rec ^^ n) (isin_NZFNODE rec up1) = []"
      and r: "res = (reach1 @ up1) @ concat (map (\<lambda>k. (isin_NZFNODE rec ^^ k) (isin_NZFNODE rec up1)) [0..<n])"
      by blast
    have "map (\<lambda>k. (isin_NZFNODE rec ^^ k) up1) [0..<Suc n]
          = up1 # map (\<lambda>k. (isin_NZFNODE rec ^^ k) (isin_NZFNODE rec up1)) [0..<n]"
      by (simp only: map_upt_Suc funpow_Suc_right o_apply) simp
    with r have "res = reach1 @ concat (map (\<lambda>k. (isin_NZFNODE rec ^^ k) up1) [0..<Suc n])"
      by simp
    moreover from n have "(isin_NZFNODE rec ^^ Suc n) up1 = []"
      by (simp add: funpow_swap1)
    ultimately show ?thesis by blast
  qed
qed

lemma upstream_loop_terminates:
  "(isin_NZFNODE rec ^^ n) up1 = [] \<Longrightarrow> \<exists>res. upstream_loop rec reach1 up1 = Some res"
proof (induction n arbitrary: reach1 up1)
  case 0
  then show ?case by (simp add: upstream_loop_Nil)
next
  case (Suc n)
  show ?case
  proof (cases "up1 = []")
    case True
    then show ?thesis by (simp add: upstream_loop_Nil)
  next
    case False
    from Suc.prems have "(isin_NZFNODE rec ^^ n) (isin_NZFNODE rec up1) = []"
      by (simp add: funpow_swap1)
    from Suc.IH[OF this, of "reach1 @ up1"] False show ?thesis
      by (subst upstream_loop.simps) simp
  qed
qed

lemma rtrancl_Image_unfold: "R\<^sup>* `` A = A \<union> R\<^sup>* `` (R `` A)"
proof
  show "R\<^sup>* `` A \<subseteq> A \<union> R\<^sup>* `` (R `` A)"
  proof
    fix x assume "x \<in> R\<^sup>* `` A"
    then obtain a where a: "a \<in> A" and ax: "(a, x) \<in> R\<^sup>*" by blast
    from ax show "x \<in> A \<union> R\<^sup>* `` (R `` A)"
    proof (cases rule: converse_rtranclE)
      case base
      with a show ?thesis by simp
    next
      case (step y)
      with a show ?thesis by blast
    qed
  qed
  show "A \<union> R\<^sup>* `` (R `` A) \<subseteq> R\<^sup>* `` A"
    by (auto intro: converse_rtrancl_into_rtrancl)
qed

lemma upstream_loop_set:
  "upstream_loop rec reach1 up1 = Some res \<Longrightarrow> set res = set reach1 \<union> (upstream rec)\<^sup>* `` set up1"
proof (induction rule: upstream_loop.raw_induct[rotated 1, consumes 1])
  case (1 f rec reach1 up1 res)
  show ?case
  proof (cases "up1 = []")
    case True
    with 1(2) show ?thesis by simp
  next
    case False
    with 1(2) have "f rec (reach1 @ up1) (isin_NZFNODE rec up1) = Some res" by simp
    from 1(1)[OF this] have "set res = set reach1 \<union> (set up1 \<union> (upstream rec)\<^sup>* `` (upstream rec `` set up1))"
      by (simp add: set_isin_NZFNODE Un_assoc)
    then show ?thesis
      by (simp only: rtrancl_Image_unfold[symmetric])
  qed
qed

lemma upstream_of_eq: "upstream_of rec i = upstream_loop rec [] (filter (\<lambda>r. NZREACH r = i) rec)"
proof (cases "filter (\<lambda>r. NZREACH r = i) rec = []")
  case True
  then show ?thesis by (simp add: upstream_of_def isin_NZFNODE_Nil upstream_loop_Nil)
next
  case False
  then have "upstream_loop rec [] (filter (\<lambda>r. NZREACH r = i) rec)
      = upstream_loop rec (filter (\<lambda>r. NZREACH r = i) rec)
          (isin_NZFNODE rec (filter (\<lambda>r. NZREACH r = i) rec))"
    by (subst upstream_loop.simps) simp
  then show ?thesis by (simp add: upstream_of_def Let_def)
qed

lemma upstream_of_set: "upstream_of rec i = Some res \<Longrightarrow> set res = upstream_set rec i"
  by (simp add: upstream_of_eq upstream_set_def upstream_loop_set)

lemma upstream_range: "(a, b) \<in> upstream rec \<Longrightarrow> b \<in> set rec"
  by (simp add: upstream_def)

lemma upstream_trancl_range: "(a, b) \<in> (upstream rec)\<^sup>+ \<Longrightarrow> b \<in> set rec"
  by (erule tranclE) (auto dest: upstream_range)

lemma relpow_Image_mono_empty:
  fixes R :: "('a \<times> 'a) set"
  assumes "(R ^^ n) `` A = {}"
  shows "(R ^^ (n + k)) `` A = {}"
proof -
  have "(R ^^ (n + k)) `` A = (R ^^ k) `` ((R ^^ n) `` A)"
    by (simp add: relpow_add relcomp_Image)
  with assms show ?thesis by simp
qed

lemma relpow_Image_prefix:
  fixes R :: "('a \<times> 'a) set"
  shows "(R ^^ (n + k)) `` A \<noteq> {} \<Longrightarrow> (R ^^ n) `` A \<noteq> {}"
  using relpow_Image_mono_empty by blast

lemma cycle_walk:
  assumes "(r, r) \<in> R\<^sup>+"
  shows "\<exists>x. (r, x) \<in> R ^^ n \<and> (x, r) \<in> R\<^sup>*"
proof (induction n)
  case 0
  then show ?case by auto
next
  case (Suc n)
  then obtain x where x: "(r, x) \<in> R ^^ n" and xr: "(x, r) \<in> R\<^sup>*" by blast
  have "\<exists>y. (x, y) \<in> R \<and> (y, r) \<in> R\<^sup>*"
  proof (cases "x = r")
    case True
    from tranclD[OF assms] True show ?thesis by simp
  next
    case False
    with xr have "(x, r) \<in> R\<^sup>+" by (auto dest: rtranclD)
    then show ?thesis by (rule tranclD)
  qed
  then obtain y where "(x, y) \<in> R" and "(y, r) \<in> R\<^sup>*" by blast
  with x have "(r, y) \<in> R ^^ Suc n" by auto
  with \<open>(y, r) \<in> R\<^sup>*\<close> show ?case by blast
qed

lemma cycle_levels_nonempty:
  assumes s: "s \<in> A" and sr: "(s, r) \<in> R\<^sup>*" and c: "(r, r) \<in> R\<^sup>+"
  shows "(R ^^ n) `` A \<noteq> {}"
proof -
  from sr obtain m where m: "(s, r) \<in> R ^^ m"
    by (auto simp: rtrancl_power)
  from cycle_walk[OF c, of n] obtain x where "(r, x) \<in> R ^^ n" by blast
  with m have "(s, x) \<in> R ^^ (m + n)"
    by (auto simp: relpow_add)
  then have "(s, x) \<in> R ^^ (n + m)" by (simp add: add.commute)
  with s have "(R ^^ (n + m)) `` A \<noteq> {}" by blast
  then show ?thesis by (rule relpow_Image_prefix)
qed

lemma rank_decreases:
  assumes "(x, y) \<in> upstream rec" and "(y, y) \<notin> (upstream rec)\<^sup>+"
  shows "card ((upstream rec)\<^sup>+ `` {y}) < card ((upstream rec)\<^sup>+ `` {x})"
proof (rule psubset_card_mono)
  have "(upstream rec)\<^sup>+ `` {x} \<subseteq> set rec"
    by (auto dest: upstream_trancl_range)
  then show "finite ((upstream rec)\<^sup>+ `` {x})"
    by (rule finite_subset) simp
  have "(upstream rec)\<^sup>+ `` {y} \<subseteq> (upstream rec)\<^sup>+ `` {x}"
    using assms(1) by (auto intro: trancl_into_trancl2)
  moreover have "y \<in> (upstream rec)\<^sup>+ `` {x}" using assms(1) by auto
  moreover have "y \<notin> (upstream rec)\<^sup>+ `` {y}" using assms(2) by auto
  ultimately show "(upstream rec)\<^sup>+ `` {y} \<subset> (upstream rec)\<^sup>+ `` {x}" by blast
qed

lemma rank_along_path:
  assumes nc: "\<forall>r \<in> (upstream rec)\<^sup>* `` A. (r, r) \<notin> (upstream rec)\<^sup>+" and s: "s \<in> A"
  shows "(s, x) \<in> upstream rec ^^ n \<Longrightarrow>
           card ((upstream rec)\<^sup>+ `` {x}) + n \<le> card ((upstream rec)\<^sup>+ `` {s})"
proof (induction n arbitrary: x)
  case 0
  then show ?case by simp
next
  case (Suc n)
  then obtain y where sy: "(s, y) \<in> upstream rec ^^ n" and yx: "(y, x) \<in> upstream rec"
    by auto
  from sy have "(s, y) \<in> (upstream rec)\<^sup>*" by (rule relpow_imp_rtrancl)
  with yx have "(s, x) \<in> (upstream rec)\<^sup>*" by simp
  with s nc have "(x, x) \<notin> (upstream rec)\<^sup>+" by blast
  from rank_decreases[OF yx this] Suc.IH[OF sy] show ?case by simp
qed

lemma no_cycle_levels_empty:
  assumes nc: "\<forall>r \<in> (upstream rec)\<^sup>* `` A. (r, r) \<notin> (upstream rec)\<^sup>+"
  shows "(upstream rec ^^ Suc (length rec)) `` A = {}"
proof (rule ccontr)
  assume "(upstream rec ^^ Suc (length rec)) `` A \<noteq> {}"
  then obtain s x where s: "s \<in> A" and p: "(s, x) \<in> upstream rec ^^ Suc (length rec)"
    by blast
  have "(upstream rec)\<^sup>+ `` {s} \<subseteq> set rec"
    by (auto dest: upstream_trancl_range)
  then have "card ((upstream rec)\<^sup>+ `` {s}) \<le> card (set rec)"
    by (intro card_mono) simp_all
  also have "\<dots> \<le> length rec" by (rule card_length)
  finally have "card ((upstream rec)\<^sup>+ `` {s}) \<le> length rec" .
  with rank_along_path[OF nc s p] show False by simp
qed

lemma upstream_loop_terminates_iff:
  "(\<exists>res. upstream_loop rec reach1 up1 = Some res) \<longleftrightarrow>
     (\<forall>r \<in> (upstream rec)\<^sup>* `` set up1. (r, r) \<notin> (upstream rec)\<^sup>+)"
proof
  assume "\<exists>res. upstream_loop rec reach1 up1 = Some res"
  then obtain n where "(isin_NZFNODE rec ^^ n) up1 = []"
    using upstream_loop_levels by blast
  then have e: "(upstream rec ^^ n) `` set up1 = {}"
    by (simp add: set_isin_NZFNODE_funpow[symmetric])
  show "\<forall>r \<in> (upstream rec)\<^sup>* `` set up1. (r, r) \<notin> (upstream rec)\<^sup>+"
  proof (intro ballI notI)
    fix r assume "r \<in> (upstream rec)\<^sup>* `` set up1" and c: "(r, r) \<in> (upstream rec)\<^sup>+"
    then obtain s where "s \<in> set up1" and "(s, r) \<in> (upstream rec)\<^sup>*" by blast
    from cycle_levels_nonempty[OF this c, of n] e show False by simp
  qed
next
  assume "\<forall>r \<in> (upstream rec)\<^sup>* `` set up1. (r, r) \<notin> (upstream rec)\<^sup>+"
  then have "(upstream rec ^^ Suc (length rec)) `` set up1 = {}"
    by (rule no_cycle_levels_empty)
  then have "(isin_NZFNODE rec ^^ Suc (length rec)) up1 = []"
    by (simp only: set_isin_NZFNODE_funpow[symmetric] set_empty)
  then show "\<exists>res. upstream_loop rec reach1 up1 = Some res"
    by (rule upstream_loop_terminates)
qed

lemma upstream_of_terminates_iff:
  "(\<exists>res. upstream_of rec i = Some res) \<longleftrightarrow>
     (\<forall>r \<in> upstream_set rec i. (r, r) \<notin> (upstream rec)\<^sup>+)"
  by (simp add: upstream_of_eq upstream_loop_terminates_iff upstream_set_def)

lemma reaches_lst_Some_iff:
  "(\<exists>lst. reaches_lst rec nz = Some lst) \<longleftrightarrow> (\<forall>i \<in> set nz. \<exists>res. upstream_of rec i = Some res)"
  by (induction nz) (auto split: option.splits)

lemma reaches_lst_set:
  "reaches_lst rec nz = Some lst \<Longrightarrow>
     set (concat lst) = {(i, r). i \<in> set nz \<and> r \<in> upstream_set rec i}"
proof (induction nz arbitrary: lst)
  case Nil
  then show ?case by simp
next
  case (Cons j nz)
  from Cons.prems obtain reach1 rest where
    u: "upstream_of rec j = Some reach1" and r: "reaches_lst rec nz = Some rest"
    and l: "lst = map (Pair j) reach1 # rest"
    by (auto split: option.splits)
  have "set (map (Pair j) reach1) = {(i, r). i = j \<and> r \<in> upstream_set rec j}"
    using upstream_of_set[OF u] by auto
  with Cons.IH[OF r] l show ?case by auto
qed

lemma find_upstream_returns_iff:
  "find_upstream nzreach rec_streams_shp \<noteq> None \<longleftrightarrow>
     (\<forall>i \<in> set nzreach. \<forall>r \<in> upstream_set (map fst rec_streams_shp) i.
        (r, r) \<notin> (upstream (map fst rec_streams_shp))\<^sup>+)"
proof -
  have "find_upstream nzreach rec_streams_shp \<noteq> None \<longleftrightarrow>
        (\<exists>lst. reaches_lst (map fst rec_streams_shp) nzreach = Some lst)"
    by (auto simp: find_upstream_def split: option.splits)
  then show ?thesis
    by (simp add: reaches_lst_Some_iff upstream_of_terminates_iff)
qed

lemma find_upstream_set:
  assumes "find_upstream nzreach rec_streams_shp = Some (Inr reaches)"
  shows "set reaches = {(i, r). i \<in> set nzreach \<and> r \<in> upstream_set (map fst rec_streams_shp) i}"
proof -
  from assms obtain lst where "reaches_lst (map fst rec_streams_shp) nzreach = Some lst"
    and "reaches = concat lst"
    by (auto simp: find_upstream_def split: option.splits if_splits)
  then show ?thesis using reaches_lst_set by blast
qed










section \<open>The shared computation and the computation per site\<close>

lemma dissolve_set_eq:
  "dissolve T = map (\<lambda>k. (k, \<Union> {g. (k, g) \<in> set T})) (sorted_list_of_set (fst ` set T))"
  by (simp add: dissolve_def unary_union_filter sorted_list_of_set_sort_remdups[symmetric])

lemma dissolve_cong: "set T = set T' \<Longrightarrow> dissolve T = dissolve T'"
  by (simp add: dissolve_set_eq)


lemma set_extract_catch_starts:
  assumes "find_upstream nz S = Some (Inr reaches)"
  shows "set (map (\<lambda>row. (fst (fst row), snd row)) (extract_catch reaches C))
         = {(s, g). s \<in> set nz \<and> g \<in> sub_catchments C (map fst S) s}" (is "?L = ?R")
proof -
  have r: "(s, r) \<in> set reaches \<longleftrightarrow> s \<in> set nz \<and> r \<in> upstream_set (map fst S) s" for s r
    using find_upstream_set[OF assms] by auto
  have "(s, g) \<in> ?L \<longleftrightarrow> (s, g) \<in> ?R" for s g
  proof -
    have "(s, g) \<in> ?L \<longleftrightarrow> (\<exists>r. ((s, r), g) \<in> set (extract_catch reaches C))"
      by force
    also have "\<dots> \<longleftrightarrow> (\<exists>r. s \<in> set nz \<and> r \<in> upstream_set (map fst S) s
        \<and> NZREACH r \<in> fst ` set C \<and> int32 (NZREACH r) = NZREACH r
        \<and> g = \<Union> {g. (NZREACH r, g) \<in> set C})"
      by (simp add: extract_catch_iff r)
    also have "\<dots> \<longleftrightarrow> (s, g) \<in> ?R"
      unfolding sub_catchments_def by blast
    finally show ?thesis .
  qed
  then show ?thesis by (intro set_eqI) (simp only: split_paired_all)
qed

lemma agg_catch_extract:
  assumes "find_upstream nz S = Some (Inr reaches)"
  shows "agg_catch (extract_catch reaches C) =
     map (\<lambda>s. (int32 s, \<Union> (sub_catchments C (map fst S) s), area (\<Union> (sub_catchments C (map fst S) s))))
       (sorted_list_of_set {s \<in> set nz. sub_catchments C (map fst S) s \<noteq> {}})"
proof -
  let ?P = "sub_catchments C (map fst S)"
  let ?T = "map (\<lambda>row. (fst (fst row), snd row)) (extract_catch reaches C)"
  let ?K = "{s \<in> set nz. ?P s \<noteq> {}}"
  have T: "set ?T = {(s, g). s \<in> set nz \<and> g \<in> ?P s}"
    by (rule set_extract_catch_starts[OF assms])
  have K: "fst ` set ?T = ?K"
    unfolding T by force
  have G: "{g. (s, g) \<in> set ?T} = ?P s" if "s \<in> ?K" for s
    unfolding T using that by simp
  have fin: "finite ?K" by simp
  have "agg_catch (extract_catch reaches C) =
      map (\<lambda>row. (int32 (fst row), snd row, area (snd row))) (dissolve ?T)"
    by (simp add: agg_catch_def)
  also have "\<dots> = map (\<lambda>s. (int32 s, \<Union> {g. (s, g) \<in> set ?T}, area (\<Union> {g. (s, g) \<in> set ?T})))
       (sorted_list_of_set ?K)"
    by (simp only: dissolve_set_eq K map_map o_def fst_conv snd_conv)
  also have "\<dots> = map (\<lambda>s. (int32 s, \<Union> (?P s), area (\<Union> (?P s)))) (sorted_list_of_set ?K)"
    by (rule map_cong[OF refl]) (simp only: set_sorted_list_of_set[OF fin] G)
  finally show ?thesis .
qed

lemma catch_results_closed:
  assumes "find_upstream (unique (map (\<lambda>row. snd (fst row)) pts_seg)) S = Some (Inr reaches)"
  shows "catch_results pts_seg S C = Some (Inr
     (concat (map (\<lambda>s. map (\<lambda>y. (int32 s, \<Union> (sub_catchments C (map fst S) s),
                                  area (\<Union> (sub_catchments C (map fst S) s)), fst y))
                           (filter (\<lambda>y. snd y = int32 s) (map fst pts_seg)))
        (sorted_list_of_set {s \<in> snd ` fst ` set pts_seg. sub_catchments C (map fst S) s \<noteq> {}}))))"
proof -
  have s: "set (unique (map (\<lambda>row. snd (fst row)) pts_seg)) = snd ` fst ` set pts_seg"
    by (simp add: set_unique image_image)
  show ?thesis
    by (simp add: catch_results_def assms agg_catch_extract[OF assms] merge_on_def s
        map_map o_def)
qed

lemma catch_results_None_iff:
  "catch_results pts_seg S C = None \<longleftrightarrow>
     find_upstream (unique (map (\<lambda>row. snd (fst row)) pts_seg)) S = None"
  by (simp add: catch_results_def Let_def split: option.splits sum.splits)

lemma find_upstream_returns_rows:
  assumes "nz \<noteq> []" and "find_upstream nz S \<noteq> None"
  shows "\<exists>reaches. find_upstream nz S = Some (Inr reaches)"
proof -
  from assms(2) obtain y where y: "find_upstream nz S = Some y" by auto
  show ?thesis
  proof (cases y)
    case (Inl e)
    with y assms(1) find_upstream_error_iff[of nz S e] show ?thesis by simp
  next
    case (Inr reaches)
    with y show ?thesis by simp
  qed
qed




















section \<open>Sites without a match\<close>

text \<open>
  The steps after the matching return a table exactly when at least one site is
  matched and no reach upstream of a matched reach lies on a cycle.
\<close>

lemma catch_results_returns_rows_iff:
  "(\<exists>rows. catch_results pts_seg S C = Some (Inr rows)) \<longleftrightarrow>
     pts_seg \<noteq> [] \<and> (\<forall>k \<in> snd ` fst ` set pts_seg. \<forall>r \<in> upstream_set (map fst S) k.
        (r, r) \<notin> (upstream (map fst S))\<^sup>+)"
proof -
  let ?nz = "unique (map (\<lambda>row. snd (fst row)) pts_seg)"
  have s: "set ?nz = snd ` fst ` set pts_seg"
    by (simp add: set_unique image_image)
  have n: "?nz = [] \<longleftrightarrow> pts_seg = []"
    by (simp add: unique_Nil_iff)
  show ?thesis
  proof
    assume "\<exists>rows. catch_results pts_seg S C = Some (Inr rows)"
    then obtain rows where r: "catch_results pts_seg S C = Some (Inr rows)" ..
    then have "pts_seg \<noteq> []"
      by (auto simp: catch_results_Nil)
    moreover from r have "find_upstream ?nz S \<noteq> None"
      using catch_results_None_iff[of pts_seg S C] by simp
    ultimately show "pts_seg \<noteq> [] \<and> (\<forall>k \<in> snd ` fst ` set pts_seg. \<forall>r \<in> upstream_set (map fst S) k.
        (r, r) \<notin> (upstream (map fst S))\<^sup>+)"
      using find_upstream_returns_iff[of ?nz S] by (simp only: s) simp
  next
    assume a: "pts_seg \<noteq> [] \<and> (\<forall>k \<in> snd ` fst ` set pts_seg. \<forall>r \<in> upstream_set (map fst S) k.
        (r, r) \<notin> (upstream (map fst S))\<^sup>+)"
    then have "find_upstream ?nz S \<noteq> None"
      using find_upstream_returns_iff[of ?nz S] by (simp only: s) simp
    moreover from a have "?nz \<noteq> []" by (simp add: n)
    ultimately obtain reaches where "find_upstream ?nz S = Some (Inr reaches)"
      using find_upstream_returns_rows by blast
    from catch_results_closed[OF this, of C] show "\<exists>rows. catch_results pts_seg S C = Some (Inr rows)"
      by blast
  qed
qed

lemma catch_results_rows_sites:
  assumes "catch_results pts_seg S C = Some (Inr rows)" and "(k, g, ar, a) \<in> set rows"
  shows "(a, k) \<in> fst ` set pts_seg"
proof -
  from assms(1) obtain rec_shed where
    "rows = merge_on fst snd (\<lambda>s row. (fst s, fst (snd s), snd (snd s), fst row)) rec_shed (map fst pts_seg)"
    by (auto simp: catch_results_def Let_def split: option.splits sum.splits)
  with assms(2) have "(k, g, ar, a) \<in> {(fst x, fst (snd x), snd (snd x), fst y) | x y.
      x \<in> set rec_shed \<and> y \<in> set (map fst pts_seg) \<and> snd y = fst x}"
    by (simp only: set_merge_on)
  then obtain x y where y: "y \<in> set (map fst pts_seg)" and s: "snd y = fst x"
    and e: "(k, g, ar, a) = (fst x, fst (snd x), snd (snd x), fst y)"
    by blast
  from s e have "y = (a, k)" by (cases y) simp
  with y show ?thesis by simp
qed

lemma kd_nearest_mem:
  assumes "((a, k), p) \<in> set (kd_nearest dist df1 df2 max_distance)"
  shows "(a, p) \<in> set df1 \<and> (\<exists>c \<in> set df2. NZREACH (fst c) = k \<and> within max_distance (dist p (snd c)))"
proof -
  from assms obtain row where row: "row \<in> set df1"
    and m: "((a, k), p) \<in> set (case nearest dist (snd row) df2 of None \<Rightarrow> []
        | Some c \<Rightarrow> if within max_distance (dist (snd row) (snd c))
                    then [((fst row, NZREACH (fst c)), snd row)] else [])"
    unfolding kd_nearest_def by auto
  from m obtain c where n: "nearest dist (snd row) df2 = Some c"
    by (cases "nearest dist (snd row) df2") auto
  with m have w: "within max_distance (dist (snd row) (snd c))"
    and e: "((a, k), p) = ((fst row, NZREACH (fst c)), snd row)"
    by (auto split: if_splits)
  from n have "c \<in> set df2" by (rule nearest_mem)
  moreover from e row have "(a, p) \<in> set df1" by simp
  ultimately show ?thesis using w e by auto
qed

text \<open>
  Whenever \<open>catch_delineate\<close> returns a table, every row of it belongs to a site
  that has a centroid within \<open>max_distance\<close>.
\<close>

lemma catch_delineate_rows_matched:
  assumes "catch_delineate centroid dist sites_shp rec_streams_shp rec_catch_shp max_distance = Some (Inr rows)"
    and "(k, g, ar, a) \<in> set rows"
  shows "\<exists>p. (a, p) \<in> set sites_shp
           \<and> (\<exists>row \<in> set rec_streams_shp. within max_distance (dist p (centroid (snd row))))"
proof -
  let ?pts1 = "map (\<lambda>row. (fst row, centroid (snd row))) (make_mods mods rec_streams_shp)"
  let ?seg = "kd_nearest dist sites_shp ?pts1 max_distance"
  from assms(1) have "catch_results ?seg (make_mods mods rec_streams_shp) rec_catch_shp = Some (Inr rows)"
    by (simp add: catch_delineate_def Let_def)
  from catch_results_rows_sites[OF this assms(2)] obtain p where "((a, k), p) \<in> set ?seg"
    by auto
  from kd_nearest_mem[OF this] obtain c where ap: "(a, p) \<in> set sites_shp" and "c \<in> set ?pts1"
    and w: "within max_distance (dist p (snd c))"
    by blast
  from this(2) have "snd c \<in> snd ` set ?pts1" by (rule imageI)
  then have "snd c \<in> centroid ` snd ` set rec_streams_shp"
    by (simp only: centroids_make_mods)
  then obtain row where "row \<in> set rec_streams_shp" and "snd c = centroid (snd row)"
    by auto
  with ap w show ?thesis by auto
qed

lemma scenario_make_mods: "make_mods mods (scenario_streams l) = scenario_streams l"
  by (simp add: make_mods_def mods_def loc_assign_def scenario_streams_def)

lemma scenario_upstream_1:
  "find_upstream [1] (scenario_streams l) =
     Some (Inr [(1, \<lparr>NZREACH = 1, NZFNODE = 10, NZTNODE = 20\<rparr>)])"
  by (simp add: run_simps scenario_streams_def del: set_filter)

lemma scenario_results_1:
  "catch_results [((a, 1), p)] (scenario_streams l) (scenario_catch g1 g2 g3) =
     Some (Inr [(1, g1, card g1, a)])"
  by (simp add: catch_results_def scenario_upstream_1 table_simps scenario_catch_def
      del: set_filter)

lemma one_matched_site_example:
  "catch_delineate id (\<lambda>a b. \<bar>a - b\<bar>) [(10 :: int, 100 :: int), (11, 1)] (scenario_streams (0 :: int))
     (scenario_catch {0, 1, 2, 3, 4 :: int} {5, 6, 7} {8, 9, 10, 11}) (Some 5)
   = Some (Inr [(1, {0, 1, 2, 3, 4}, 5, 11)])"
proof -
  have k: "kd_nearest (\<lambda>a b. \<bar>a - b\<bar>) [(10 :: int, 100 :: int), (11, 1)]
      (scenario_streams (0 :: int)) (Some 5) = [((11, 1), 1)]"
    by (simp add: kd_nearest_def within_def scenario_streams_def)
  show ?thesis
    by (simp add: catch_delineate_def Let_def scenario_make_mods k scenario_results_1)
qed

text \<open>
  C3. A batch of two sites, both farther than \<open>max_distance\<close> from every centroid
  of the scenario: \<open>catch_delineate\<close> raises \<open>ValueError\<close>, where the claim has it return
  a result without the two sites.
\<close>

theorem unmatched_batch_raises:
  "catch_delineate id (\<lambda>a b. \<bar>a - b\<bar>) [(10 :: int, 100 :: int), (11, 200)] (scenario_streams (0 :: int))
     (scenario_catch {0, 1, 2, 3, 4 :: int} {5, 6, 7} {8, 9, 10, 11}) (Some 5)
   = Some (Inl ValueError)"
proof -
  have k: "kd_nearest (\<lambda>a b. \<bar>a - b\<bar>) [(10 :: int, 100 :: int), (11, 200)]
      (scenario_streams (0 :: int)) (Some 5) = []"
    by (simp add: kd_nearest_def within_def scenario_streams_def)
  show ?thesis
    by (simp add: catch_delineate_def Let_def scenario_make_mods k catch_results_Nil)
qed

end
